theory Spec2Isabelle
  imports Main "HOL-Library.AList" "HOL-Library.Char_ord" "HOL-Library.List_Lexorder"
begin

section \<open>Data model of \<^verbatim>\<open>app/plugin/grist-plugin-api.ts\<close>\<close>

subsection \<open>JavaScript values and objects\<close>

text \<open>
  Cell values as the widget sees them. Numbers are only copied, never computed with, so an
  integer stands for them. \<open>JUndefined\<close> is what reading a missing property yields.
\<close>

datatype jsval =
    JUndefined
  | JNull
  | JBool bool
  | JNum int
  | JStr string
  | JArr "jsval list"

text \<open>
  A plain object is an association list in insertion order. Property names are ordinary own
  data properties; the prototype chain is not modelled.
\<close>

type_synonym obj = "(string \<times> jsval) list"

text \<open>\<^verbatim>\<open>o[k]\<close>: reading a property that is not there gives \<^verbatim>\<open>undefined\<close>.\<close>

definition prop_get :: "obj \<Rightarrow> string \<Rightarrow> jsval" where
  "prop_get ob k = (case map_of ob k of None \<Rightarrow> JUndefined | Some v \<Rightarrow> v)"

text \<open>\<^verbatim>\<open>o[k] = v\<close>: overwrite in place, or append a new property.\<close>

definition prop_set :: "string \<Rightarrow> jsval \<Rightarrow> obj \<Rightarrow> obj" where
  "prop_set k v ob = AList.update k v ob"

text \<open>
  \<^verbatim>\<open>v?.[idx]\<close>: \<^verbatim>\<open>undefined\<close> on a nullish value, the element of an array, the
  one-character string of a string, \<^verbatim>\<open>undefined\<close> out of range and on the other primitives.
\<close>

fun opt_index :: "jsval \<Rightarrow> nat \<Rightarrow> jsval" where
  "opt_index JUndefined idx = JUndefined"
| "opt_index JNull idx = JUndefined"
| "opt_index (JArr xs) idx = (if idx < length xs then xs ! idx else JUndefined)"
| "opt_index (JStr s) idx = (if idx < length s then JStr [s ! idx] else JUndefined)"
| "opt_index (JBool b) idx = JUndefined"
| "opt_index (JNum n) idx = JUndefined"

text \<open>Three-valued slots: \<^verbatim>\<open>undefined\<close>, \<^verbatim>\<open>null\<close>, or a value.\<close>

datatype 'a nullish = Undef | Nul | Val 'a

text \<open>A property of an options object: the key is absent, or present with a value.\<close>

datatype 'a opt_key = Absent | Given 'a

text \<open>Object spread \<^verbatim>\<open>{k: dflt, ...options}\<close> for one key.\<close>

fun spread :: "'a \<Rightarrow> 'a opt_key \<Rightarrow> 'a" where
  "spread dflt Absent = dflt"
| "spread dflt (Given v) = v"

subsection \<open>Mapping specification and column mapping\<close>

text \<open>
  Modelled from the spec: the type \<^verbatim>\<open>ColumnsToMap\<close> (imported from
  \<^verbatim>\<open>./CustomSectionAPI\<close>). An entry is a bare name, or a descriptor
  \<^verbatim>\<open>{name, optional}\<close>; a descriptor without \<^verbatim>\<open>optional\<close> reads as \<open>False\<close>
  (\<^verbatim>\<open>undefined\<close> is falsy).
\<close>

datatype ColumnToMap = ColName string | ColDesc string bool

type_synonym ColumnsToMap = "ColumnToMap list"

text \<open>
  Modelled from the spec: the type \<^verbatim>\<open>WidgetColumnMap\<close> (imported from
  \<^verbatim>\<open>./CustomSectionAPI\<close>): each widget column name is associated with \<^verbatim>\<open>null\<close>, one host
  column name, or a list of host column names. The list order is the key enumeration order
  of the object.
\<close>

datatype gristcol = GNull | GName string | GSeries "string list"

type_synonym WidgetColumnMap = "(string \<times> gristcol) list"

text \<open>\<^verbatim>\<open>Object.keys(o)\<close>: every key once.\<close>

definition object_keys :: "(string \<times> 'v) list \<Rightarrow> string list" where
  "object_keys ob = remdups (map fst ob)"

text \<open>
  \<^verbatim>\<open>options.mappings[widgetCol]\<close>. A missing key would read \<^verbatim>\<open>undefined\<close>, which is
  falsy and no array, just as \<^verbatim>\<open>null\<close> is; the loop only reads keys that are present.
\<close>

definition mappings_get :: "WidgetColumnMap \<Rightarrow> string \<Rightarrow> gristcol" where
  "mappings_get m widgetCol = (case map_of m widgetCol of None \<Rightarrow> GNull | Some g \<Rightarrow> g)"

subsection \<open>Module state\<close>

text \<open>
  The module-level variables. \<open>initialized\<close> is the state of the promise
  \<^verbatim>\<open>_initialization\<close> (resolved or not); \<open>activeRefreshReq\<close> holds the number of the
  pending refresh promise.
\<close>

record module_state =
  mappingsCache :: "WidgetColumnMap nullish"
  activeRefreshReq :: "nat option"
  columnsToMap :: "ColumnsToMap option"
  tableId :: "string option"
  initialized :: bool
  readyCalled :: bool

text \<open>The state at module load.\<close>

definition initial_state :: module_state where
  "initial_state = \<lparr> mappingsCache = Undef, activeRefreshReq = None, columnsToMap = None,
     tableId = None, initialized = False, readyCalled = False \<rparr>"

section \<open>\<^verbatim>\<open>mapColumnNames\<close>\<close>

text \<open>The \<^verbatim>\<open>options\<close> argument; every key may be left out.\<close>

record options =
  columns :: "ColumnsToMap option opt_key"
  mappings :: "WidgetColumnMap nullish opt_key"
  reverse :: "bool option opt_key"

text \<open>Input and output: one record, or an array of records.\<close>

datatype data = Single obj | Many "obj list"

type_synonym transformation = "obj \<Rightarrow> obj \<Rightarrow> obj"

text \<open>\<^verbatim>\<open>(from, to) => to.id = from.id\<close>\<close>

definition copy_id :: transformation where
  "copy_id from to = prop_set ''id'' (prop_get from ''id'') to"

text \<open>\<^verbatim>\<open>to[widgetCol] = gristCol.map(col => from[col])\<close>\<close>

definition series_forward :: "string \<Rightarrow> string list \<Rightarrow> transformation" where
  "series_forward widgetCol gristCol from to =
     prop_set widgetCol (JArr (map (prop_get from) gristCol)) to"

text \<open>\<^verbatim>\<open>for (const [idx, col] of gristCol.entries()) { to[col] = from[widgetCol]?.[idx]; }\<close>\<close>

definition series_reverse :: "string \<Rightarrow> string list \<Rightarrow> transformation" where
  "series_reverse widgetCol gristCol from to =
     fold (\<lambda>(idx, col) acc. prop_set col (opt_index (prop_get from widgetCol) idx) acc)
          (enumerate 0 gristCol) to"

text \<open>\<^verbatim>\<open>to[widgetCol] = from[gristCol]\<close>\<close>

definition single_forward :: "string \<Rightarrow> string \<Rightarrow> transformation" where
  "single_forward widgetCol gristCol from to = prop_set widgetCol (prop_get from gristCol) to"

text \<open>\<^verbatim>\<open>to[gristCol] = from[widgetCol]\<close>\<close>

definition single_reverse :: "string \<Rightarrow> string \<Rightarrow> transformation" where
  "single_reverse widgetCol gristCol from to = prop_set gristCol (prop_get from widgetCol) to"

text \<open>
  \<^verbatim>\<open>isOptional(col)\<close>: the name is not listed as a bare string, and some descriptor with
  that name has a truthy \<^verbatim>\<open>optional\<close>.
\<close>

definition isOptional :: "ColumnsToMap \<Rightarrow> string \<Rightarrow> bool" where
  "isOptional cols col =
     (ColName col \<notin> set cols \<and>
      find (\<lambda>c. case c of ColName n \<Rightarrow> False | ColDesc n opt \<Rightarrow> n = col \<and> opt) cols \<noteq> None)"

text \<open>
  The body of the loop over the sorted widget columns, with the transformations pushed so
  far; \<open>None\<close> is the early \<^verbatim>\<open>return null\<close>.
\<close>

fun build_transformations ::
  "ColumnsToMap \<Rightarrow> WidgetColumnMap \<Rightarrow> bool \<Rightarrow> string list \<Rightarrow> transformation list
     \<Rightarrow> transformation list option" where
  "build_transformations cols m back [] ts = Some ts"
| "build_transformations cols m back (widgetCol # rest) ts =
     (case mappings_get m widgetCol of
        GSeries gristCol \<Rightarrow>
          if gristCol \<noteq> [] then
            build_transformations cols m back rest
              (ts @ [if \<not> back then series_forward widgetCol gristCol
                     else series_reverse widgetCol gristCol])
          else if \<not> isOptional cols widgetCol then None
          else build_transformations cols m back rest ts
      | GName gristCol \<Rightarrow>
          if gristCol \<noteq> [] then
            build_transformations cols m back rest
              (ts @ [if \<not> back then single_forward widgetCol gristCol
                     else single_reverse widgetCol gristCol])
          else if \<not> isOptional cols widgetCol then None
          else build_transformations cols m back rest ts
      | GNull \<Rightarrow>
          if \<not> isOptional cols widgetCol then None
          else build_transformations cols m back rest ts)"

text \<open>
  \<^verbatim>\<open>convert = (rec) => transformations.reduce((obj, tran) => { tran(rec, obj); return obj; }, {})\<close>
\<close>

definition convert :: "transformation list \<Rightarrow> obj \<Rightarrow> obj" where
  "convert transformations rec = fold (\<lambda>tran ob. tran rec ob) transformations []"

text \<open>\<^verbatim>\<open>Array.isArray(data) && data.length === 0\<close>\<close>

fun is_empty_array :: "data \<Rightarrow> bool" where
  "is_empty_array (Many rs) = (rs = [])"
| "is_empty_array (Single r) = False"

text \<open>\<^verbatim>\<open>Array.isArray(data) ? data.map(convert) : convert(data)\<close>\<close>

fun apply_convert :: "transformation list \<Rightarrow> data \<Rightarrow> data" where
  "apply_convert ts (Many rs) = Many (map (convert ts) rs)"
| "apply_convert ts (Single r) = Single (convert ts r)"

text \<open>The three defaults merged with the caller's options.\<close>

definition effective_columns :: "module_state \<Rightarrow> options \<Rightarrow> ColumnsToMap option" where
  "effective_columns st opts = spread (columnsToMap st) (columns opts)"

definition effective_mappings :: "module_state \<Rightarrow> options \<Rightarrow> WidgetColumnMap nullish" where
  "effective_mappings st opts = spread (mappingsCache st) (mappings opts)"

definition effective_reverse :: "options \<Rightarrow> bool" where
  "effective_reverse opts = (spread (Some False) (reverse opts) = Some True)"

text \<open>\<^verbatim>\<open>mapColumnNames(data, options)\<close>; \<open>None\<close> is \<^verbatim>\<open>null\<close>.\<close>

definition mapColumnNames :: "module_state \<Rightarrow> data \<Rightarrow> options \<Rightarrow> data option" where
  "mapColumnNames st dat opts =
     (case effective_columns st opts of
        None \<Rightarrow> Some dat
      | Some cols \<Rightarrow>
          (case effective_mappings st opts of
             Undef \<Rightarrow> None
           | Nul \<Rightarrow> None
           | Val m \<Rightarrow>
               if is_empty_array dat then Some dat
               else
                 (case build_transformations cols m (effective_reverse opts)
                         (sort (object_keys m)) [copy_id] of
                    None \<Rightarrow> None
                  | Some transformations \<Rightarrow> Some (apply_convert transformations dat))))"

text \<open>\<^verbatim>\<open>mapColumnNamesBack(data, options) = mapColumnNames(data, {...options, reverse: true})\<close>\<close>

definition mapColumnNamesBack :: "module_state \<Rightarrow> data \<Rightarrow> options \<Rightarrow> data option" where
  "mapColumnNamesBack st dat opts = mapColumnNames st dat (opts\<lparr>reverse := Given (Some True)\<rparr>)"

section \<open>Vocabulary for the properties of \<^verbatim>\<open>mapColumnNames\<close>\<close>

text \<open>
  A mapping value that reaches neither copy branch of the loop: \<^verbatim>\<open>null\<close>, the empty
  string, or the empty list.
\<close>

fun unmapped :: "gristcol \<Rightarrow> bool" where
  "unmapped GNull = True"
| "unmapped (GName c) = (c = [])"
| "unmapped (GSeries cs) = (cs = [])"

text \<open>The transformation the loop pushes for a mapped widget column.\<close>

fun transformation_of :: "bool \<Rightarrow> string \<Rightarrow> gristcol \<Rightarrow> transformation" where
  "transformation_of back w (GSeries cs) =
     (if \<not> back then series_forward w cs else series_reverse w cs)"
| "transformation_of back w (GName c) =
     (if \<not> back then single_forward w c else single_reverse w c)"
| "transformation_of back w GNull = (\<lambda>from to. to)"


text \<open>The host columns a mapping value names.\<close>

fun host_columns :: "gristcol \<Rightarrow> string set" where
  "host_columns (GSeries cs) = set cs"
| "host_columns (GName c) = {c}"
| "host_columns GNull = {}"

text \<open>The widget columns of the mapping that are mapped, in the order the loop visits them.\<close>

definition mapped_keys :: "WidgetColumnMap \<Rightarrow> string list" where
  "mapped_keys m = filter (\<lambda>w. \<not> unmapped (mappings_get m w)) (sort (object_keys m))"

text \<open>The list \<^verbatim>\<open>transformations\<close> when the loop runs to its end.\<close>

definition transformations_of :: "bool \<Rightarrow> WidgetColumnMap \<Rightarrow> transformation list" where
  "transformations_of back m =
     copy_id # map (\<lambda>w. transformation_of back w (mappings_get m w)) (mapped_keys m)"

text \<open>
  The property names the mapping's transformations assign: the mapped widget columns in
  the forward direction, their host columns in the reverse direction.
\<close>

definition written_keys :: "bool \<Rightarrow> WidgetColumnMap \<Rightarrow> string set" where
  "written_keys back m =
     (if back then (\<Union>w\<in>set (mapped_keys m). host_columns (mappings_get m w))
      else set (mapped_keys m))"



text \<open>Output and input have the same shape and, record by record, the same \<^verbatim>\<open>id\<close>.\<close>

fun same_ids :: "data \<Rightarrow> data \<Rightarrow> bool" where
  "same_ids (Single r) (Single r') = (prop_get r' ''id'' = prop_get r ''id'')"
| "same_ids (Many rs) (Many rs') =
     list_all2 (\<lambda>r r'. prop_get r' ''id'' = prop_get r ''id'') rs rs'"
| "same_ids (Single r) (Many rs') = False"
| "same_ids (Many rs) (Single r') = False"


subsection \<open>Inputs of the end-to-end scenarios\<close>

abbreviation scenario_spec :: ColumnsToMap where
  "scenario_spec \<equiv> [ColName ''Name'', ColDesc ''Email'' True]"

abbreviation scenario_options :: "ColumnsToMap \<Rightarrow> WidgetColumnMap nullish \<Rightarrow> options" where
  "scenario_options cols mv \<equiv> \<lparr> columns = Given (Some cols), mappings = Given mv, reverse = Absent \<rparr>"

abbreviation record_Ann :: obj where
  "record_Ann \<equiv> [(''id'', JNum 1), (''B'', JStr ''Ann'')]"


abbreviation mapping_tags :: WidgetColumnMap where
  "mapping_tags \<equiv> [(''Tags'', GSeries [''C1'', ''C2''])]"

section \<open>The event handlers and the asynchronous calls\<close>

text \<open>
  JavaScript runs one piece of code at a time, to completion: an \<^verbatim>\<open>async\<close> function runs
  from its call to its first \<^verbatim>\<open>await\<close>, and from one \<^verbatim>\<open>await\<close> to the next, without
  interruption, and the reactions to a settled promise all run before the next message is
  delivered. Each such piece is a function on the state below; an execution is a list of
  events. Besides the module's variables the state records what the claims speak about:
  how often \<^verbatim>\<open>_setInitialized\<close> and \<^verbatim>\<open>sectionApi.mappings\<close> were called, which calls
  are suspended, and what the finished ones returned.
\<close>

subsection \<open>Messages and tables\<close>

text \<open>The fields of an inbound message that the handlers below read.\<close>

record message =
  msg_tableId :: "string option"
  msg_dataChange :: bool
  msg_mappingsChange :: bool

text \<open>Truthiness of an optional string: \<^verbatim>\<open>undefined\<close> and the empty string are falsy.\<close>

fun truthy_str :: "string option \<Rightarrow> bool" where
  "truthy_str None = False"
| "truthy_str (Some s) = (s \<noteq> [])"

text \<open>
  The columnar table that \<^verbatim>\<open>await docApi.fetchSelectedTable()\<close> yields in \<^verbatim>\<open>onRecords\<close>:
  called without options it decodes every column with \<^verbatim>\<open>col.map\<close>, so every column is an
  array, and \<^verbatim>\<open>data.id\<close> is falsy exactly when the table has no \<^verbatim>\<open>id\<close> column.
\<close>

type_synonym table = "(string \<times> jsval list) list"

text \<open>\<^verbatim>\<open>xs[i]\<close> on an array: \<^verbatim>\<open>undefined\<close> out of range.\<close>

definition array_get :: "jsval list \<Rightarrow> nat \<Rightarrow> jsval" where
  "array_get xs i = (if i < length xs then xs ! i else JUndefined)"

text \<open>
  The body of the loop over \<open>i\<close> in \<^verbatim>\<open>onRecords\<close>:
  \<^verbatim>\<open>row = {id: data.id[i]}; for (const key of Object.keys(data)) { row[key] = data[key][i]; }\<close>.
  Every key comes from the table, so the lookup finds its column.
\<close>

definition make_row :: "table \<Rightarrow> jsval list \<Rightarrow> nat \<Rightarrow> obj" where
  "make_row tbl ids i =
     fold (\<lambda>key row. case map_of tbl key of
                        None \<Rightarrow> row
                      | Some col \<Rightarrow> prop_set key (array_get col i) row)
          (object_keys tbl) [(''id'', array_get ids i)]"

text \<open>
  \<^verbatim>\<open>if (!data.id) { return; }\<close> and the loop \<^verbatim>\<open>for (let i = 0; i < data.id.length; i++)\<close>;
  \<open>None\<close> is the early return.
\<close>

definition table_rows :: "table \<Rightarrow> obj list option" where
  "table_rows tbl =
     (case map_of tbl ''id'' of
        None \<Rightarrow> None
      | Some ids \<Rightarrow> Some (map (make_row tbl ids) [0..<length ids]))"

subsection \<open>The state of an execution\<close>

text \<open>
  Who called \<^verbatim>\<open>getMappingsIfChanged\<close>: the handler of \<^verbatim>\<open>onRecord\<close> with its record, or the
  handler of \<^verbatim>\<open>onRecords\<close> with its rows. The registered callback is invoked with this
  argument and the value the call returns.
\<close>

datatype caller = RecordHandler obj | RecordsHandler "obj list"

text \<open>How the remote call \<^verbatim>\<open>sectionApi.mappings()\<close> settles: with a mapping or \<^verbatim>\<open>null\<close>, or it fails.\<close>

datatype fetch_result = Resolved "WidgetColumnMap option" | Rejected

record world = module_state +
  initCalls :: nat
  tableWaiters :: "nat list"
  tableResults :: "(nat \<times> string option) list"
  issued :: nat
  pending :: "nat list"
  awaiting :: "(caller \<times> nat) list"
  delivered :: "(caller \<times> WidgetColumnMap option) list"
  failed :: "caller list"

text \<open>
  \<open>initCalls\<close>: the number of calls of \<^verbatim>\<open>_setInitialized\<close>. \<open>tableWaiters\<close>: the calls of
  \<^verbatim>\<open>getSelectedTableId\<close> suspended at \<^verbatim>\<open>await _initialization\<close>; \<open>tableResults\<close>: what the
  released ones returned. \<open>issued\<close>: the number of calls of \<^verbatim>\<open>sectionApi.mappings\<close>, which
  also numbers the requests; \<open>pending\<close>: the requests not yet settled. \<open>awaiting\<close>: the calls
  of \<^verbatim>\<open>getMappingsIfChanged\<close> suspended at \<^verbatim>\<open>await _activeRefreshReq\<close>, with the request
  they await; \<open>delivered\<close>: the callback invocations; \<open>failed\<close>: the handlers whose call was
  rejected.
\<close>

definition initial_world :: world where
  "initial_world = \<lparr> mappingsCache = Undef, activeRefreshReq = None, columnsToMap = None,
     tableId = None, initialized = False, readyCalled = False,
     initCalls = 0, tableWaiters = [], tableResults = [], issued = 0, pending = [],
     awaiting = [], delivered = [], failed = [] \<rparr>"

subsection \<open>\<^verbatim>\<open>ready\<close> and \<^verbatim>\<open>getSelectedTableId\<close>\<close>

text \<open>
  The synchronous part of \<^verbatim>\<open>ready\<close> that the handshake depends on: the guard on
  \<^verbatim>\<open>_readyCalled\<close>, after which the listener below is attached. Registering
  \<^verbatim>\<open>editOptions\<close>, \<^verbatim>\<open>rpc.processIncoming()\<close> and the asynchronous tail (the ready message
  and \<^verbatim>\<open>configure\<close>) do not touch \<^verbatim>\<open>_tableId\<close> or \<^verbatim>\<open>_initialization\<close>.
\<close>

definition ready :: "world \<Rightarrow> world" where
  "ready w = (if readyCalled w then w else w\<lparr>readyCalled := True\<rparr>)"

text \<open>
  The listener of \<^verbatim>\<open>ready\<close>:
  \<^verbatim>\<open>if (msg.tableId && msg.tableId !== _tableId) { if (!_tableId) { _setInitialized(); } _tableId = msg.tableId; }\<close>
\<close>

definition binding_listener :: "message \<Rightarrow> world \<Rightarrow> world" where
  "binding_listener msg w =
     (if truthy_str (msg_tableId msg) \<and> msg_tableId msg \<noteq> tableId w then
        (if \<not> truthy_str (tableId w)
         then w\<lparr>initialized := True, initCalls := Suc (initCalls w)\<rparr>
         else w) \<lparr>tableId := msg_tableId msg\<rparr>
      else w)"

text \<open>A message event reaches the listener once \<^verbatim>\<open>ready\<close> has attached it.\<close>

definition receive_message :: "message \<Rightarrow> world \<Rightarrow> world" where
  "receive_message msg w = (if readyCalled w then binding_listener msg w else w)"

text \<open>\<^verbatim>\<open>getSelectedTableId\<close> up to \<^verbatim>\<open>await _initialization\<close>: the call is suspended.\<close>

definition getSelectedTableId_call :: "nat \<Rightarrow> world \<Rightarrow> world" where
  "getSelectedTableId_call c w = w\<lparr>tableWaiters := tableWaiters w @ [c]\<rparr>"

text \<open>
  The rest of \<^verbatim>\<open>getSelectedTableId\<close>, \<^verbatim>\<open>return _tableId!\<close>: it runs only for a suspended call
  and once the promise is resolved.
\<close>

definition getSelectedTableId_resume :: "nat \<Rightarrow> world \<Rightarrow> world" where
  "getSelectedTableId_resume c w =
     (if initialized w \<and> c \<in> set (tableWaiters w)
      then w\<lparr>tableWaiters := remove1 c (tableWaiters w),
             tableResults := tableResults w @ [(c, tableId w)]\<rparr>
      else w)"

subsection \<open>\<^verbatim>\<open>getMappingsIfChanged\<close>\<close>

text \<open>\<^verbatim>\<open>_mappingsCache ? JSON.parse(JSON.stringify(_mappingsCache)) : null\<close>\<close>

definition read_cache :: "world \<Rightarrow> WidgetColumnMap option" where
  "read_cache w = (case mappingsCache w of Val m \<Rightarrow> Some m | Nul \<Rightarrow> None | Undef \<Rightarrow> None)"

text \<open>
  \<^verbatim>\<open>getMappingsIfChanged(data)\<close> from its call to \<^verbatim>\<open>await _activeRefreshReq\<close>, or to its
  \<^verbatim>\<open>return\<close> when no refresh is needed; \<open>change\<close> is \<^verbatim>\<open>data.mappingsChange\<close>. A new request
  gets the number \<open>issued w\<close>.
\<close>

definition getMappingsIfChanged_call :: "caller \<Rightarrow> bool \<Rightarrow> world \<Rightarrow> world" where
  "getMappingsIfChanged_call who change w =
     (if change \<or> mappingsCache w = Undef then
        (let w1 = (case activeRefreshReq w of
                     None \<Rightarrow> w\<lparr>activeRefreshReq := Some (issued w),
                                issued := Suc (issued w),
                                pending := pending w @ [issued w]\<rparr>
                   | Some p \<Rightarrow> w)
         in case activeRefreshReq w1 of
              Some p \<Rightarrow> w1\<lparr>awaiting := awaiting w1 @ [(who, p)]\<rparr>
            | None \<Rightarrow> w1\<lparr>delivered := delivered w1 @ [(who, read_cache w1)]\<rparr>)
      else w\<lparr>delivered := delivered w @ [(who, read_cache w)]\<rparr>)"

text \<open>
  Request \<open>p\<close> settles; only a pending request can. On success \<^verbatim>\<open>.then(mappings => void (_mappingsCache = mappings))\<close>
  stores the value; in both cases \<^verbatim>\<open>.finally(() => _activeRefreshReq = null)\<close> clears the
  marker; then every call that awaits \<open>p\<close> goes on: after a success it returns the cache and
  its callback is invoked, after a failure it is rejected.
\<close>

definition mappings_settled :: "nat \<Rightarrow> fetch_result \<Rightarrow> world \<Rightarrow> world" where
  "mappings_settled p res w =
     (if p \<notin> set (pending w) then w
      else
        (let w1 = (case res of
                     Resolved v \<Rightarrow>
                       w\<lparr>mappingsCache := (case v of None \<Rightarrow> Nul | Some m \<Rightarrow> Val m)\<rparr>
                   | Rejected \<Rightarrow> w);
             w2 = w1\<lparr>activeRefreshReq := None, pending := remove1 p (pending w1)\<rparr>;
             resumed = map fst (filter (\<lambda>(who, q). q = p) (awaiting w2))
         in w2\<lparr>awaiting := filter (\<lambda>(who, q). q \<noteq> p) (awaiting w2),
                delivered := delivered w2 @
                  (case res of
                     Resolved v \<Rightarrow> map (\<lambda>who. (who, read_cache w2)) resumed
                   | Rejected \<Rightarrow> []),
                failed := failed w2 @
                  (case res of Resolved v \<Rightarrow> [] | Rejected \<Rightarrow> resumed)\<rparr>))"

subsection \<open>\<^verbatim>\<open>onRecords\<close>\<close>

text \<open>\<^verbatim>\<open>if (!msg.tableId || !msg.dataChange) { return; }\<close>: whether the table is fetched.\<close>

definition onRecords_accepts :: "message \<Rightarrow> bool" where
  "onRecords_accepts msg = (truthy_str (msg_tableId msg) \<and> msg_dataChange msg)"

text \<open>
  The handler of \<^verbatim>\<open>onRecords\<close> from the arrival of the table on: the early return without
  an \<^verbatim>\<open>id\<close> column, else the rows and \<^verbatim>\<open>callback(rows, await getMappingsIfChanged(msg))\<close>.
\<close>

definition onRecords_table :: "message \<Rightarrow> table \<Rightarrow> world \<Rightarrow> world" where
  "onRecords_table msg tbl w =
     (case table_rows tbl of
        None \<Rightarrow> w
      | Some rows \<Rightarrow> getMappingsIfChanged_call (RecordsHandler rows) (msg_mappingsChange msg) w)"

subsection \<open>Executions\<close>

datatype event =
    Ready
  | Message message
  | TableIdCall nat
  | TableIdResume nat
  | MappingsCall caller bool
  | MappingsSettled nat fetch_result
  | RecordsTable message table

fun step :: "world \<Rightarrow> event \<Rightarrow> world" where
  "step w Ready = ready w"
| "step w (Message msg) = receive_message msg w"
| "step w (TableIdCall c) = getSelectedTableId_call c w"
| "step w (TableIdResume c) = getSelectedTableId_resume c w"
| "step w (MappingsCall who change) = getMappingsIfChanged_call who change w"
| "step w (MappingsSettled p res) = mappings_settled p res w"
| "step w (RecordsTable msg tbl) =
     (if onRecords_accepts msg then onRecords_table msg tbl w else w)"

text \<open>The state after a list of events, from module load.\<close>

definition run :: "event list \<Rightarrow> world" where
  "run evs = foldl step initial_world evs"

section \<open>Vocabulary for the properties of the handlers\<close>

text \<open>
  The invariant of the handshake: the promise is resolved exactly when a table is bound,
  a bound identifier is non-empty and was bound after \<^verbatim>\<open>ready\<close>, \<^verbatim>\<open>_setInitialized\<close> was
  called once if the promise is resolved and never otherwise, and every released call
  returned a non-empty identifier.
\<close>

definition handshake_inv :: "world \<Rightarrow> bool" where
  "handshake_inv w =
     ((initialized w \<longleftrightarrow> tableId w \<noteq> None) \<and>
      (tableId w \<noteq> None \<longrightarrow> truthy_str (tableId w) \<and> readyCalled w) \<and>
      initCalls w = (if initialized w then 1 else 0) \<and>
      (\<not> initialized w \<longrightarrow> tableResults w = []) \<and>
      (\<forall>(c, r)\<in>set (tableResults w). truthy_str r))"

text \<open>Every call of \<^verbatim>\<open>getSelectedTableId\<close> by \<open>c\<close> is either suspended or was released once.\<close>

definition calls_accounted :: "event list \<Rightarrow> world \<Rightarrow> nat \<Rightarrow> bool" where
  "calls_accounted evs w c =
     (count_list (tableWaiters w) c + count_list (map fst (tableResults w)) c =
      count_list evs (TableIdCall c))"

text \<open>
  The invariant of the refresh: the pending requests are exactly the one the marker
  holds, and every suspended call awaits that request.
\<close>

definition refresh_inv :: "world \<Rightarrow> bool" where
  "refresh_inv w =
     (pending w = (case activeRefreshReq w of None \<Rightarrow> [] | Some p \<Rightarrow> [p]) \<and>
      (\<forall>(who, q)\<in>set (awaiting w). activeRefreshReq w = Some q))"

text \<open>Several calls of \<^verbatim>\<open>getMappingsIfChanged\<close> in a row, none of them resumed in between.\<close>

abbreviation calls_from :: "(caller \<times> bool) list \<Rightarrow> world \<Rightarrow> world" where
  "calls_from calls w \<equiv> fold (\<lambda>(who, change). getMappingsIfChanged_call who change) calls w"


abbreviation message_for :: "string \<Rightarrow> message" where
  "message_for t \<equiv> \<lparr> msg_tableId = Some t, msg_dataChange = True, msg_mappingsChange = True \<rparr>"

section \<open>Lemmas about the transformations\<close>

lemma prop_get_set: "prop_get (prop_set k v ob) k' = (if k' = k then v else prop_get ob k')"
  by (simp add: prop_get_def prop_set_def update_conv')


lemma build_Some:
  "\<forall>w\<in>set ws. unmapped (mappings_get m w) \<longrightarrow> isOptional cols w \<Longrightarrow>
   build_transformations cols m back ws ts =
     Some (ts @ map (\<lambda>w. transformation_of back w (mappings_get m w))
                    (filter (\<lambda>w. \<not> unmapped (mappings_get m w)) ws))"
proof (induction ws arbitrary: ts)
  case Nil
  then show ?case by simp
next
  case (Cons w ws)
  then show ?case by (cases "mappings_get m w") auto
qed

lemma build_None_iff:
  "build_transformations cols m back ws ts = None \<longleftrightarrow>
   (\<exists>w\<in>set ws. unmapped (mappings_get m w) \<and> \<not> isOptional cols w)"
proof (induction ws arbitrary: ts)
  case Nil
  then show ?case by simp
next
  case (Cons w ws)
  show ?case by (cases "mappings_get m w") (simp_all add: Cons.IH)
qed






lemma mapColumnNames_Val:
  assumes "effective_columns st opts = Some cols" and "effective_mappings st opts = Val m"
    and "\<not> is_empty_array dat"
  shows "mapColumnNames st dat opts =
     (if \<exists>w\<in>set (object_keys m). unmapped (mappings_get m w) \<and> \<not> isOptional cols w then None
      else Some (apply_convert (transformations_of (effective_reverse opts) m) dat))"
proof (cases "\<exists>w\<in>set (object_keys m). unmapped (mappings_get m w) \<and> \<not> isOptional cols w")
  case True
  then have "build_transformations cols m (effective_reverse opts) (sort (object_keys m)) [copy_id] = None"
    by (simp add: build_None_iff)
  with True assms show ?thesis by (simp add: mapColumnNames_def)
next
  case False
  then have "\<forall>w\<in>set (sort (object_keys m)). unmapped (mappings_get m w) \<longrightarrow> isOptional cols w"
    by auto
  from build_Some [OF this]
  have "build_transformations cols m (effective_reverse opts) (sort (object_keys m)) [copy_id] =
    Some (transformations_of (effective_reverse opts) m)"
    by (simp add: transformations_of_def mapped_keys_def)
  with False assms show ?thesis by (simp add: mapColumnNames_def)
qed






lemma effective_reverse_back [simp]:
  "effective_reverse (opts\<lparr>reverse := Given (Some True)\<rparr>) = True"
  by (simp add: effective_reverse_def)

lemma effective_columns_back [simp]:
  "effective_columns st (opts\<lparr>reverse := r\<rparr>) = effective_columns st opts"
  by (simp add: effective_columns_def)

lemma effective_mappings_back [simp]:
  "effective_mappings st (opts\<lparr>reverse := r\<rparr>) = effective_mappings st opts"
  by (simp add: effective_mappings_def)







lemma same_ids_refl: "same_ids dat dat"
proof (cases dat)
  case (Single r)
  then show ?thesis by simp
next
  case (Many rs)
  have "list_all2 (\<lambda>r r'. prop_get r' ''id'' = prop_get r ''id'') rs rs"
    by (rule list_all2_refl) simp
  with Many show ?thesis by simp
qed

lemma reverse_step_other:
  "k \<notin> host_columns g \<Longrightarrow> prop_get (transformation_of True w g from to) k = prop_get to k"
proof (cases g)
  case GNull
  then show ?thesis by simp
next
  case (GName c)
  assume "k \<notin> host_columns g"
  with GName show ?thesis by (simp add: single_reverse_def prop_get_set)
next
  case (GSeries cs)
  assume k: "k \<notin> host_columns g"
  have "\<And>n ob. k \<notin> set cs \<Longrightarrow>
      prop_get (fold (\<lambda>(idx, col) acc. prop_set col (opt_index (prop_get from w) idx) acc)
                 (enumerate n cs) ob) k = prop_get ob k"
  proof (induction cs)
    case Nil
    then show ?case by simp
  next
    case (Cons c cs)
    then show ?case by (simp add: prop_get_set)
  qed
  with k GSeries show ?thesis by (simp add: series_reverse_def)
qed

lemma step_other:
  assumes "k \<notin> (if back then host_columns g else {w})"
  shows "prop_get (transformation_of back w g from to) k = prop_get to k"
proof (cases "back")
  case True
  with assms show ?thesis by (simp add: reverse_step_other)
next
  case False
  with assms show ?thesis
    by (cases g) (simp_all add: series_forward_def single_forward_def prop_get_set)
qed

lemma fold_other:
  "\<forall>w\<in>set ws. k \<notin> (if back then host_columns (mappings_get m w) else {w}) \<Longrightarrow>
   prop_get (fold (\<lambda>tran ob. tran from ob)
                  (map (\<lambda>w. transformation_of back w (mappings_get m w)) ws) to) k = prop_get to k"
proof (induction ws arbitrary: to)
  case Nil
  then show ?case by simp
next
  case (Cons w ws)
  then show ?case by (simp add: step_other)
qed

lemma convert_id:
  assumes "''id'' \<notin> written_keys back m"
  shows "prop_get (convert (transformations_of back m) r) ''id'' = prop_get r ''id''"
proof -
  have "\<forall>w\<in>set (mapped_keys m). ''id'' \<notin> (if back then host_columns (mappings_get m w) else {w})"
    using assms by (auto simp: written_keys_def)
  from fold_other [OF this, of r "copy_id r []"]
  show ?thesis
    by (simp add: convert_def transformations_of_def copy_id_def prop_get_set)
qed

lemma build_cong:
  "(\<And>w. mappings_get m1 w = mappings_get m2 w) \<Longrightarrow>
   build_transformations cols m1 back ws ts = build_transformations cols m2 back ws ts"
proof (induction ws arbitrary: ts)
  case Nil
  then show ?case by simp
next
  case (Cons w ws)
  then show ?case by (cases "mappings_get m2 w") simp_all
qed

lemma sort_object_keys_cong:
  assumes "map_of m1 = map_of m2"
  shows "sort (object_keys m1) = sort (object_keys m2)"
proof -
  have "set (map fst m1) = set (map fst m2)"
    using assms by (metis dom_map_of_conv_image_fst set_map)
  then have "sorted_list_of_set (set (map fst m1)) = sorted_list_of_set (set (map fst m2))"
    by simp
  then show ?thesis
    by (simp add: object_keys_def sorted_list_of_set_sort_remdups [symmetric])
qed

lemma mapColumnNames_cong:
  assumes "map_of m1 = map_of m2"
    and "effective_columns st1 opts1 = effective_columns st2 opts2"
    and "effective_reverse opts1 = effective_reverse opts2"
    and "effective_mappings st1 opts1 = Val m1" and "effective_mappings st2 opts2 = Val m2"
  shows "mapColumnNames st1 dat opts1 = mapColumnNames st2 dat opts2"
proof -
  have g: "\<And>w. mappings_get m1 w = mappings_get m2 w"
    using assms(1) by (simp add: mappings_get_def)
  show ?thesis
    unfolding mapColumnNames_def
    using assms(2-5) sort_object_keys_cong [OF assms(1)] build_cong [of m1 m2, OF g]
    by (simp split: option.splits)
qed

section \<open>Lemmas about the handlers\<close>







lemma run_snoc: "run (evs @ [e]) = step (run evs) e"
  by (simp add: run_def)

lemma run_Nil: "run [] = initial_world"
  by (simp add: run_def)

lemma handshake_inv_initial: "handshake_inv initial_world"
  by (simp add: handshake_inv_def initial_world_def)

lemma truthy_str_Some: "truthy_str x \<Longrightarrow> x \<noteq> None"
  by (cases x) simp_all

lemma handshake_inv_step: "handshake_inv w \<Longrightarrow> handshake_inv (step w e)"
proof (cases e)
  case Ready
  assume "handshake_inv w"
  with Ready show ?thesis by (auto simp: handshake_inv_def ready_def)
next
  case (Message msg)
  assume "handshake_inv w"
  with Message show ?thesis
    by (auto simp: handshake_inv_def receive_message_def binding_listener_def
        dest: truthy_str_Some)
next
  case (TableIdCall c)
  assume "handshake_inv w"
  with TableIdCall show ?thesis by (simp add: handshake_inv_def getSelectedTableId_call_def)
next
  case (TableIdResume c)
  assume "handshake_inv w"
  with TableIdResume show ?thesis
    by (auto simp: handshake_inv_def getSelectedTableId_resume_def)
next
  case (MappingsCall who change)
  assume "handshake_inv w"
  with MappingsCall show ?thesis
    by (auto simp: handshake_inv_def getMappingsIfChanged_call_def Let_def split: option.splits)
next
  case (MappingsSettled p res)
  assume "handshake_inv w"
  with MappingsSettled show ?thesis
    by (auto simp: handshake_inv_def mappings_settled_def Let_def split: fetch_result.splits)
next
  case (RecordsTable msg tbl)
  assume "handshake_inv w"
  with RecordsTable show ?thesis
    by (auto simp: handshake_inv_def onRecords_table_def getMappingsIfChanged_call_def Let_def
        split: option.splits)
qed

lemma handshake_inv_run: "handshake_inv (run evs)"
proof (induction evs rule: rev_induct)
  case Nil
  then show ?case by (simp add: run_Nil handshake_inv_initial)
next
  case (snoc e evs)
  then show ?case by (simp add: run_snoc handshake_inv_step)
qed

lemma count_list_remove1:
  "c \<in> set xs \<Longrightarrow> Suc (count_list (remove1 c xs) c) = count_list xs c"
  by (induction xs) auto

lemma count_list_remove1_other:
  "c \<noteq> d \<Longrightarrow> count_list (remove1 d xs) c = count_list xs c"
  by (induction xs) auto

lemma calls_accounted_run: "calls_accounted evs (run evs) c"
proof (induction evs rule: rev_induct)
  case Nil
  then show ?case by (simp add: calls_accounted_def run_Nil initial_world_def)
next
  case (snoc e evs)
  show ?case
  proof (cases e)
    case Ready
    with snoc show ?thesis by (simp add: calls_accounted_def run_snoc ready_def)
  next
    case (Message msg)
    with snoc show ?thesis
      by (simp add: calls_accounted_def run_snoc receive_message_def binding_listener_def)
  next
    case (TableIdCall d)
    with snoc show ?thesis
      by (simp add: calls_accounted_def run_snoc getSelectedTableId_call_def)
  next
    case (TableIdResume d)
    show ?thesis
    proof (cases "initialized (run evs) \<and> d \<in> set (tableWaiters (run evs))")
      case False
      with snoc TableIdResume show ?thesis
        by (auto simp: calls_accounted_def run_snoc getSelectedTableId_resume_def)
    next
      case True
      show ?thesis
      proof (cases "c = d")
        case True
        with \<open>initialized (run evs) \<and> d \<in> set (tableWaiters (run evs))\<close> snoc TableIdResume
        show ?thesis
          using count_list_remove1 [of d "tableWaiters (run evs)"]
          by (simp add: calls_accounted_def run_snoc getSelectedTableId_resume_def)
      next
        case False
        with True snoc TableIdResume show ?thesis
          by (simp add: calls_accounted_def run_snoc getSelectedTableId_resume_def
              count_list_remove1_other)
      qed
    qed
  next
    case (MappingsCall who change)
    with snoc show ?thesis
      by (simp add: calls_accounted_def run_snoc getMappingsIfChanged_call_def Let_def
          split: option.splits)
  next
    case (MappingsSettled p res)
    with snoc show ?thesis
      by (simp add: calls_accounted_def run_snoc mappings_settled_def Let_def
          split: fetch_result.splits)
  next
    case (RecordsTable msg tbl)
    with snoc show ?thesis
      by (simp add: calls_accounted_def run_snoc onRecords_table_def
          getMappingsIfChanged_call_def Let_def split: option.splits)
  qed
qed

lemma truthy_str_iff: "truthy_str x \<longleftrightarrow> (\<exists>t. x = Some t \<and> t \<noteq> [])"
  by (cases x) simp_all

lemma refresh_inv_initial: "refresh_inv initial_world"
  by (simp add: refresh_inv_def initial_world_def)

lemma refresh_inv_call:
  "refresh_inv w \<Longrightarrow> refresh_inv (getMappingsIfChanged_call who change w)"
  by (auto simp: refresh_inv_def getMappingsIfChanged_call_def Let_def split: option.splits)

lemma refresh_inv_settled:
  "refresh_inv w \<Longrightarrow> refresh_inv (mappings_settled p res w)"
  by (auto simp: refresh_inv_def mappings_settled_def Let_def
      split: option.splits fetch_result.splits)

lemma refresh_inv_step: "refresh_inv w \<Longrightarrow> refresh_inv (step w e)"
proof (cases e)
  case Ready
  assume "refresh_inv w"
  with Ready show ?thesis by (auto simp: refresh_inv_def ready_def)
next
  case (Message msg)
  assume "refresh_inv w"
  with Message show ?thesis
    by (auto simp: refresh_inv_def receive_message_def binding_listener_def)
next
  case (TableIdCall c)
  assume "refresh_inv w"
  with TableIdCall show ?thesis by (simp add: refresh_inv_def getSelectedTableId_call_def)
next
  case (TableIdResume c)
  assume "refresh_inv w"
  with TableIdResume show ?thesis
    by (auto simp: refresh_inv_def getSelectedTableId_resume_def)
next
  case (MappingsCall who change)
  assume "refresh_inv w"
  with MappingsCall show ?thesis by (simp add: refresh_inv_call)
next
  case (MappingsSettled p res)
  assume "refresh_inv w"
  with MappingsSettled show ?thesis by (simp add: refresh_inv_settled)
next
  case (RecordsTable msg tbl)
  assume "refresh_inv w"
  with RecordsTable show ?thesis
    by (simp add: onRecords_table_def refresh_inv_call split: option.splits)
qed

lemma refresh_inv_run: "refresh_inv (run evs)"
proof (induction evs rule: rev_induct)
  case Nil
  then show ?case by (simp add: run_Nil refresh_inv_initial)
next
  case (snoc e evs)
  then show ?case by (simp add: run_snoc refresh_inv_step)
qed

text \<open>One call that needs a refresh.\<close>

lemma call_needing_refresh:
  assumes "refresh_inv w" and "change \<or> mappingsCache w = Undef"
  shows "\<exists>p. pending (getMappingsIfChanged_call who change w) = [p] \<and>
           activeRefreshReq (getMappingsIfChanged_call who change w) = Some p \<and>
           (pending w \<noteq> [] \<longrightarrow> pending w = [p]) \<and>
           awaiting (getMappingsIfChanged_call who change w) = awaiting w @ [(who, p)]"
    and "issued (getMappingsIfChanged_call who change w) =
           (if pending w = [] then Suc (issued w) else issued w)"
    and "mappingsCache (getMappingsIfChanged_call who change w) = mappingsCache w"
    and "delivered (getMappingsIfChanged_call who change w) = delivered w"
    and "failed (getMappingsIfChanged_call who change w) = failed w"
  using assms
  by (auto simp: refresh_inv_def getMappingsIfChanged_call_def Let_def split: option.splits)

lemma calls_needing_refresh:
  assumes "refresh_inv w" and "calls \<noteq> []"
    and "\<forall>(who, change)\<in>set calls. change \<or> mappingsCache w = Undef"
  shows "refresh_inv (calls_from calls w) \<and>
         (\<exists>p. pending (calls_from calls w) = [p] \<and>
           activeRefreshReq (calls_from calls w) = Some p \<and>
           awaiting (calls_from calls w) = awaiting w @ map (\<lambda>(who, change). (who, p)) calls) \<and>
         issued (calls_from calls w) = (if pending w = [] then Suc (issued w) else issued w) \<and>
         mappingsCache (calls_from calls w) = mappingsCache w \<and>
         delivered (calls_from calls w) = delivered w \<and>
         failed (calls_from calls w) = failed w"
  using assms(2,3)
proof (induction calls rule: rev_induct)
  case Nil
  then show ?case by simp
next
  case (snoc x calls)
  obtain who change where x: "x = (who, change)" by (cases x)
  show ?case
  proof (cases "calls = []")
    case True
    have need: "change \<or> mappingsCache w = Undef"
      using snoc.prems x by simp
    from call_needing_refresh [OF assms(1) need, of who] refresh_inv_call [OF assms(1), of who change]
    show ?thesis using True x by auto
  next
    case False
    let ?w = "calls_from calls w"
    have ih: "refresh_inv ?w \<and>
         (\<exists>p. pending ?w = [p] \<and> activeRefreshReq ?w = Some p \<and>
           awaiting ?w = awaiting w @ map (\<lambda>(who, change). (who, p)) calls) \<and>
         issued ?w = (if pending w = [] then Suc (issued w) else issued w) \<and>
         mappingsCache ?w = mappingsCache w \<and> delivered ?w = delivered w \<and> failed ?w = failed w"
      using snoc.IH [OF False] snoc.prems by simp
    then have inv: "refresh_inv ?w" by simp
    have need: "change \<or> mappingsCache ?w = Undef"
      using snoc.prems x ih by simp
    from call_needing_refresh [OF inv need, of who] refresh_inv_call [OF inv, of who change] ih
    show ?thesis using x by auto
  qed
qed

lemma awaiting_all_active:
  "refresh_inv w \<Longrightarrow> activeRefreshReq w = Some p \<Longrightarrow>
   filter (\<lambda>(who, q). q = p) (awaiting w) = awaiting w \<and>
   filter (\<lambda>(who, q). q \<noteq> p) (awaiting w) = []"
  by (auto simp: refresh_inv_def filter_id_conv filter_empty_conv)

lemma settled_resolved:
  assumes "refresh_inv w" and "pending w = [p]"
  shows "pending (mappings_settled p (Resolved v) w) = [] \<and>
         activeRefreshReq (mappings_settled p (Resolved v) w) = None \<and>
         awaiting (mappings_settled p (Resolved v) w) = [] \<and>
         read_cache (mappings_settled p (Resolved v) w) = v \<and>
         delivered (mappings_settled p (Resolved v) w) =
           delivered w @ map (\<lambda>(who, q). (who, v)) (awaiting w) \<and>
         failed (mappings_settled p (Resolved v) w) = failed w \<and>
         issued (mappings_settled p (Resolved v) w) = issued w"
proof -
  from assms have act: "activeRefreshReq w = Some p"
    by (auto simp: refresh_inv_def split: option.splits)
  note f = awaiting_all_active [OF assms(1) act]
  have m: "map ((\<lambda>who. (who, v)) \<circ> fst) (awaiting w) = map (\<lambda>(who, q). (who, v)) (awaiting w)"
    by (rule map_cong) auto
  show ?thesis
    using assms(2) f m
    by (cases v) (simp_all add: mappings_settled_def Let_def read_cache_def)
qed

lemma settled_rejected:
  assumes "refresh_inv w" and "pending w = [p]"
  shows "pending (mappings_settled p Rejected w) = [] \<and>
         activeRefreshReq (mappings_settled p Rejected w) = None \<and>
         awaiting (mappings_settled p Rejected w) = [] \<and>
         mappingsCache (mappings_settled p Rejected w) = mappingsCache w \<and>
         delivered (mappings_settled p Rejected w) = delivered w \<and>
         failed (mappings_settled p Rejected w) = failed w @ map fst (awaiting w) \<and>
         issued (mappings_settled p Rejected w) = issued w"
proof -
  from assms have act: "activeRefreshReq w = Some p"
    by (auto simp: refresh_inv_def split: option.splits)
  note f = awaiting_all_active [OF assms(1) act]
  show ?thesis
    using assms(2) f by (simp add: mappings_settled_def Let_def)
qed

lemma call_after_clear:
  "activeRefreshReq w = None \<Longrightarrow>
   issued (getMappingsIfChanged_call who True w) = Suc (issued w) \<and>
   pending (getMappingsIfChanged_call who True w) = pending w @ [issued w]"
  by (simp add: getMappingsIfChanged_call_def Let_def)

section \<open>Claims about \<^verbatim>\<open>mapColumnNames\<close> and \<^verbatim>\<open>mapColumnNamesBack\<close>\<close>












text \<open>
  Claim C5 (\<^verbatim>\<open>id\<close> copied), as the code has it. Whenever the call succeeds and no
  transformation of the mapping assigns the property \<^verbatim>\<open>id\<close> (no mapped widget column is
  named \<^verbatim>\<open>id\<close> in the forward direction, no mapped host column in the reverse direction),
  the output has the shape of the input and every output record has the \<^verbatim>\<open>id\<close> of its
  input record.
\<close>

theorem id_copied_unless_overwritten:
  assumes out: "mapColumnNames st dat opts = Some out"
    and noid: "\<forall>m. effective_mappings st opts = Val m \<longrightarrow>
                 ''id'' \<notin> written_keys (effective_reverse opts) m"
  shows "same_ids dat out"
proof (cases "effective_columns st opts")
  case None
  with out show ?thesis by (simp add: mapColumnNames_def same_ids_refl)
next
  case (Some cols)
  with out obtain m where m: "effective_mappings st opts = Val m"
    by (cases "effective_mappings st opts") (simp_all add: mapColumnNames_def)
  show ?thesis
  proof (cases "is_empty_array dat")
    case True
    with Some m out show ?thesis by (simp add: mapColumnNames_def same_ids_refl)
  next
    case False
    let ?ts = "transformations_of (effective_reverse opts) m"
    from mapColumnNames_Val [OF Some m False] out
    have o: "out = apply_convert ?ts dat"
      by (auto split: if_splits)
    have id: "\<And>r. prop_get (convert ?ts r) ''id'' = prop_get r ''id''"
      using noid m by (simp add: convert_id)
    show ?thesis
    proof (cases dat)
      case (Single r)
      with o id show ?thesis by simp
    next
      case (Many rs)
      have "list_all2 (\<lambda>r r'. prop_get r' ''id'' = prop_get r ''id'') rs (map (convert ?ts) rs)"
        unfolding list_all2_map2 by (rule list_all2_refl) (rule id)
      with Many o show ?thesis by simp
    qed
  qed
qed

theorem id_copied_scenario_A:
  "mapColumnNames initial_state (Single record_Ann)
       (scenario_options scenario_spec (Val [(''Name'', GName ''B'')])) =
     Some (Single [(''id'', JNum 1), (''Name'', JStr ''Ann'')])
   \<and> same_ids (Single record_Ann) (Single [(''id'', JNum 1), (''Name'', JStr ''Ann'')])"
proof -
  let ?m = "[(''Name'', GName ''B'')]"
  let ?opts = "scenario_options scenario_spec (Val ?m)"
  have a: "mapColumnNames initial_state (Single record_Ann) ?opts =
     Some (Single [(''id'', JNum 1), (''Name'', JStr ''Ann'')])"
    by code_simp
  have d: "\<not> effective_reverse ?opts"
    by (simp add: effective_reverse_def)
  have w: "''id'' \<notin> written_keys False ?m"
    by (simp add: written_keys_def mapped_keys_def object_keys_def mappings_get_def)
  have n: "\<forall>m. effective_mappings initial_state ?opts = Val m \<longrightarrow>
      ''id'' \<notin> written_keys (effective_reverse ?opts) m"
    using d w by (simp add: effective_mappings_def)
  from id_copied_unless_overwritten [OF a n] a show ?thesis by simp
qed

text \<open>
  The claim as stated fails: a widget column named \<^verbatim>\<open>id\<close> that is mapped overwrites the
  copied \<^verbatim>\<open>id\<close>.
\<close>

theorem id_overwritten_by_mapped_id_column:
  "mapColumnNames initial_state (Single record_Ann)
     (scenario_options [ColName ''id''] (Val [(''id'', GName ''B'')])) =
     Some (Single [(''id'', JStr ''Ann'')])"
  by code_simp

text \<open>
  Claim C6 (key order). Two ColumnMapping objects with the same associations, whatever the
  order of their keys, give the same result for every input, MappingSpec and direction,
  whether the mapping comes from the options or from the cache.
\<close>

theorem key_order_irrelevant:
  assumes "map_of m1 = map_of m2"
  shows "mapColumnNames st dat (opts\<lparr>mappings := Given (Val m1)\<rparr>) =
         mapColumnNames st dat (opts\<lparr>mappings := Given (Val m2)\<rparr>)
       \<and> mapColumnNamesBack st dat (opts\<lparr>mappings := Given (Val m1)\<rparr>) =
         mapColumnNamesBack st dat (opts\<lparr>mappings := Given (Val m2)\<rparr>)
       \<and> mapColumnNames (st\<lparr>mappingsCache := Val m1\<rparr>) dat (opts\<lparr>mappings := Absent\<rparr>) =
         mapColumnNames (st\<lparr>mappingsCache := Val m2\<rparr>) dat (opts\<lparr>mappings := Absent\<rparr>)"
proof (intro conjI)
  show "mapColumnNames st dat (opts\<lparr>mappings := Given (Val m1)\<rparr>) =
         mapColumnNames st dat (opts\<lparr>mappings := Given (Val m2)\<rparr>)"
    by (rule mapColumnNames_cong [OF assms])
       (simp_all add: effective_columns_def effective_reverse_def effective_mappings_def)
  show "mapColumnNamesBack st dat (opts\<lparr>mappings := Given (Val m1)\<rparr>) =
         mapColumnNamesBack st dat (opts\<lparr>mappings := Given (Val m2)\<rparr>)"
    unfolding mapColumnNamesBack_def
    by (rule mapColumnNames_cong [OF assms])
       (simp_all add: effective_columns_def effective_reverse_def effective_mappings_def)
  show "mapColumnNames (st\<lparr>mappingsCache := Val m1\<rparr>) dat (opts\<lparr>mappings := Absent\<rparr>) =
         mapColumnNames (st\<lparr>mappingsCache := Val m2\<rparr>) dat (opts\<lparr>mappings := Absent\<rparr>)"
    by (rule mapColumnNames_cong [OF assms])
       (simp_all add: effective_columns_def effective_reverse_def effective_mappings_def)
qed

theorem key_order_irrelevant_example:
  "mapColumnNames initial_state (Single record_Ann)
      (scenario_options scenario_spec (Val [(''Name'', GName ''B''), (''Email'', GNull)])) =
   mapColumnNames initial_state (Single record_Ann)
      (scenario_options scenario_spec (Val [(''Email'', GNull), (''Name'', GName ''B'')]))"
proof -
  have "map_of [(''Name'', GName ''B''), (''Email'', GNull)] =
        map_of [(''Email'', GNull), (''Name'', GName ''B'')]"
    by (auto simp: fun_eq_iff)
  from key_order_irrelevant [OF this, of initial_state "Single record_Ann"
      "scenario_options scenario_spec Undef"]
  show ?thesis by simp
qed

section \<open>Claims about the mapping cache, the handshake and \<^verbatim>\<open>onRecords\<close>\<close>

text \<open>
  Claim C7 (single flight). In every reachable state at most one request for the mappings
  is pending. When any number of calls of \<^verbatim>\<open>getMappingsIfChanged\<close> that need a refresh
  (the cache was never populated, or the message signals a change) are made before the
  request settles, exactly one request is pending afterwards: one new remote call if none
  was pending, none otherwise. All the suspended calls await that request. When it
  resolves with \<open>v\<close>, the marker is cleared and every one of them returns \<open>v\<close>; when it
  fails, the marker is cleared, the cache is unchanged and every one of them is rejected.
  After either, a call that needs a refresh starts a new request.
\<close>

theorem refresh_single_flight:
  assumes w: "w = run evs"
    and ne: "calls \<noteq> []"
    and need: "\<forall>(who, change)\<in>set calls. change \<or> mappingsCache w = Undef"
    and w': "w' = calls_from calls w"
  shows "length (pending w) \<le> 1 \<and>
     (\<exists>p. pending w' = [p] \<and> activeRefreshReq w' = Some p \<and>
          issued w' = (if pending w = [] then Suc (issued w) else issued w) \<and>
          awaiting w' = awaiting w @ map (\<lambda>(who, change). (who, p)) calls \<and>
          (\<forall>(who, q)\<in>set (awaiting w'). q = p) \<and>
          delivered w' = delivered w \<and> failed w' = failed w \<and>
          (\<forall>v. pending (mappings_settled p (Resolved v) w') = [] \<and>
               activeRefreshReq (mappings_settled p (Resolved v) w') = None \<and>
               awaiting (mappings_settled p (Resolved v) w') = [] \<and>
               read_cache (mappings_settled p (Resolved v) w') = v \<and>
               delivered (mappings_settled p (Resolved v) w') =
                 delivered w' @ map (\<lambda>(who, q). (who, v)) (awaiting w') \<and>
               failed (mappings_settled p (Resolved v) w') = failed w' \<and>
               issued (mappings_settled p (Resolved v) w') = issued w' \<and>
               issued (getMappingsIfChanged_call who' True (mappings_settled p (Resolved v) w')) =
                 Suc (issued w')) \<and>
          pending (mappings_settled p Rejected w') = [] \<and>
          activeRefreshReq (mappings_settled p Rejected w') = None \<and>
          awaiting (mappings_settled p Rejected w') = [] \<and>
          mappingsCache (mappings_settled p Rejected w') = mappingsCache w' \<and>
          delivered (mappings_settled p Rejected w') = delivered w' \<and>
          failed (mappings_settled p Rejected w') = failed w' @ map fst (awaiting w') \<and>
          issued (mappings_settled p Rejected w') = issued w' \<and>
          issued (getMappingsIfChanged_call who' True (mappings_settled p Rejected w')) =
            Suc (issued w'))"
proof -
  have inv: "refresh_inv w"
    unfolding w by (rule refresh_inv_run)
  then have one: "length (pending w) \<le> 1"
    by (auto simp: refresh_inv_def split: option.splits)
  from calls_needing_refresh [OF inv ne need]
  obtain p where inv': "refresh_inv w'"
    and p: "pending w' = [p]" "activeRefreshReq w' = Some p"
    and aw: "awaiting w' = awaiting w @ map (\<lambda>(who, change). (who, p)) calls"
    and rest: "issued w' = (if pending w = [] then Suc (issued w) else issued w)"
      "delivered w' = delivered w" "failed w' = failed w"
    unfolding w' by blast
  have same: "\<forall>(who, q)\<in>set (awaiting w'). q = p"
    using inv' p(2) by (auto simp: refresh_inv_def)
  note ok = settled_resolved [OF inv' p(1)]
  note ko = settled_rejected [OF inv' p(1)]
  have next_ok: "\<And>v. issued (getMappingsIfChanged_call who' True (mappings_settled p (Resolved v) w')) =
                 Suc (issued w')"
    using ok call_after_clear by simp
  have next_ko: "issued (getMappingsIfChanged_call who' True (mappings_settled p Rejected w')) =
                 Suc (issued w')"
    using ko call_after_clear by simp
  show ?thesis
    apply (rule conjI [OF one])
    apply (rule exI [of _ p])
    using p aw same rest ok ko next_ok next_ko by simp
qed

theorem refresh_single_flight_two_callers:
  "issued (calls_from [(RecordsHandler [record_Ann], False), (RecordHandler record_Ann, True)]
       initial_world) = 1
   \<and> pending (calls_from [(RecordsHandler [record_Ann], False), (RecordHandler record_Ann, True)]
       initial_world) = [0]
   \<and> delivered (mappings_settled 0 (Resolved (Some mapping_tags))
       (calls_from [(RecordsHandler [record_Ann], False), (RecordHandler record_Ann, True)]
          initial_world)) =
     [(RecordsHandler [record_Ann], Some mapping_tags), (RecordHandler record_Ann, Some mapping_tags)]
   \<and> activeRefreshReq (mappings_settled 0 (Resolved (Some mapping_tags))
       (calls_from [(RecordsHandler [record_Ann], False), (RecordHandler record_Ann, True)]
          initial_world)) = None"
proof -
  let ?calls = "[(RecordsHandler [record_Ann], False), (RecordHandler record_Ann, True)]"
  let ?w' = "calls_from ?calls initial_world"
  have w: "initial_world = run []"
    by (simp add: run_Nil)
  have ne: "?calls \<noteq> []"
    by simp
  have need: "\<forall>(who, change)\<in>set ?calls. change \<or> mappingsCache initial_world = Undef"
    by (simp add: initial_world_def)
  have p0: "pending ?w' = [0]"
    by (simp add: getMappingsIfChanged_call_def initial_world_def)
  have aw: "awaiting ?w' = [(RecordsHandler [record_Ann], 0), (RecordHandler record_Ann, 0)]"
    by (simp add: getMappingsIfChanged_call_def initial_world_def)
  have d0: "delivered ?w' = []" "pending initial_world = []" "issued initial_world = 0"
    by (simp_all add: getMappingsIfChanged_call_def initial_world_def)
  from refresh_single_flight [OF w ne need refl, of "RecordHandler record_Ann"] p0
  have "issued ?w' = (if pending initial_world = [] then Suc (issued initial_world)
                      else issued initial_world)"
    and "\<forall>v. delivered (mappings_settled 0 (Resolved v) ?w') =
               delivered ?w' @ map (\<lambda>(who, q). (who, v)) (awaiting ?w')"
    and "\<forall>v. activeRefreshReq (mappings_settled 0 (Resolved v) ?w') = None"
    by auto
  with p0 aw d0 show ?thesis by simp
qed

text \<open>
  Claim C8 (handshake). In every reachable state \<^verbatim>\<open>_setInitialized\<close> has been called at
  most once, and once exactly when a table is bound; nothing is bound before \<^verbatim>\<open>ready\<close>.
  After \<^verbatim>\<open>ready\<close>, the first message with a non-empty \<^verbatim>\<open>tableId\<close> fires the signal and
  binds that identifier; a later message only updates the binding: it calls
  \<^verbatim>\<open>_setInitialized\<close> no more, and releases or suspends nobody. A suspended call of
  \<^verbatim>\<open>getSelectedTableId\<close> stays suspended until the signal has fired; then it returns the
  identifier bound at that moment, which is never \<^verbatim>\<open>undefined\<close> or empty. Every call is
  either still suspended or was released exactly once.
\<close>

theorem handshake_releases_once:
  assumes w: "w = run evs"
  shows "initCalls w \<le> 1 \<and> (initCalls w = 1 \<longleftrightarrow> tableId w \<noteq> None) \<and>
         (initialized w \<longleftrightarrow> tableId w \<noteq> None) \<and>
         (\<not> readyCalled w \<longrightarrow> tableId w = None) \<and>
         (tableId w = None \<longrightarrow> tableResults w = []) \<and>
         (readyCalled w \<and> tableId w = None \<and> truthy_str (msg_tableId msg) \<longrightarrow>
            initCalls (step w (Message msg)) = 1 \<and> initialized (step w (Message msg)) \<and>
            tableId (step w (Message msg)) = msg_tableId msg) \<and>
         (tableId w = None \<and> \<not> truthy_str (msg_tableId msg) \<longrightarrow> step w (Message msg) = w) \<and>
         (tableId w \<noteq> None \<longrightarrow>
            initCalls (step w (Message msg)) = 1 \<and> initialized (step w (Message msg)) \<and>
            tableWaiters (step w (Message msg)) = tableWaiters w \<and>
            tableResults (step w (Message msg)) = tableResults w \<and>
            tableId (step w (Message msg)) =
              (if truthy_str (msg_tableId msg) then msg_tableId msg else tableId w)) \<and>
         (\<not> initialized w \<longrightarrow> step w (TableIdResume c) = w) \<and>
         (initialized w \<and> c \<in> set (tableWaiters w) \<longrightarrow>
            (\<exists>t. t \<noteq> [] \<and> tableId w = Some t \<and>
                 tableResults (step w (TableIdResume c)) = tableResults w @ [(c, Some t)]) \<and>
            tableWaiters (step w (TableIdResume c)) = remove1 c (tableWaiters w)) \<and>
         (\<forall>(d, r)\<in>set (tableResults w). \<exists>t. r = Some t \<and> t \<noteq> []) \<and>
         count_list (tableWaiters w) c + count_list (map fst (tableResults w)) c =
           count_list evs (TableIdCall c)"
proof -
  have inv: "handshake_inv w"
    unfolding w by (rule handshake_inv_run)
  have acc: "calls_accounted evs w c"
    unfolding w by (rule calls_accounted_run)
  have 1: "initCalls w \<le> 1 \<and> (initCalls w = 1 \<longleftrightarrow> tableId w \<noteq> None) \<and>
         (initialized w \<longleftrightarrow> tableId w \<noteq> None) \<and>
         (\<not> readyCalled w \<longrightarrow> tableId w = None) \<and>
         (tableId w = None \<longrightarrow> tableResults w = [])"
    using inv by (auto simp: handshake_inv_def)
  have 2: "readyCalled w \<and> tableId w = None \<and> truthy_str (msg_tableId msg) \<longrightarrow>
            initCalls (step w (Message msg)) = 1 \<and> initialized (step w (Message msg)) \<and>
            tableId (step w (Message msg)) = msg_tableId msg"
    using inv by (auto simp: handshake_inv_def receive_message_def binding_listener_def)
  have 3: "tableId w = None \<and> \<not> truthy_str (msg_tableId msg) \<longrightarrow> step w (Message msg) = w"
    by (simp add: receive_message_def binding_listener_def)
  have 4: "tableId w \<noteq> None \<longrightarrow>
            initCalls (step w (Message msg)) = 1 \<and> initialized (step w (Message msg)) \<and>
            tableWaiters (step w (Message msg)) = tableWaiters w \<and>
            tableResults (step w (Message msg)) = tableResults w \<and>
            tableId (step w (Message msg)) =
              (if truthy_str (msg_tableId msg) then msg_tableId msg else tableId w)"
    using inv by (auto simp: handshake_inv_def receive_message_def binding_listener_def)
  have 5: "\<not> initialized w \<longrightarrow> step w (TableIdResume c) = w"
    by (simp add: getSelectedTableId_resume_def)
  have 6: "initialized w \<and> c \<in> set (tableWaiters w) \<longrightarrow>
            (\<exists>t. t \<noteq> [] \<and> tableId w = Some t \<and>
                 tableResults (step w (TableIdResume c)) = tableResults w @ [(c, Some t)]) \<and>
            tableWaiters (step w (TableIdResume c)) = remove1 c (tableWaiters w)"
    using inv by (auto simp: handshake_inv_def getSelectedTableId_resume_def truthy_str_iff)
  have 7: "\<forall>(d, r)\<in>set (tableResults w). \<exists>t. r = Some t \<and> t \<noteq> []"
    using inv by (auto simp: handshake_inv_def truthy_str_iff)
  have 8: "count_list (tableWaiters w) c + count_list (map fst (tableResults w)) c =
           count_list evs (TableIdCall c)"
    using acc by (simp add: calls_accounted_def)
  from 1 2 3 4 5 6 7 8 show ?thesis by blast
qed

theorem handshake_two_callers:
  "initCalls (step (run [TableIdCall 0, Ready]) (Message (message_for ''Table1''))) = 1
   \<and> tableId (step (run [TableIdCall 0, Ready]) (Message (message_for ''Table1''))) =
       Some ''Table1''
   \<and> initCalls (run [TableIdCall 0, Ready, Message (message_for ''Table1''), TableIdResume 0,
                   TableIdCall 1, TableIdResume 1, Message (message_for ''Table2'')]) = 1
   \<and> tableId (run [TableIdCall 0, Ready, Message (message_for ''Table1''), TableIdResume 0,
                   TableIdCall 1, TableIdResume 1, Message (message_for ''Table2'')]) =
       Some ''Table2''
   \<and> tableResults (run [TableIdCall 0, Ready, Message (message_for ''Table1''), TableIdResume 0,
                   TableIdCall 1, TableIdResume 1, Message (message_for ''Table2'')]) =
       [(0, Some ''Table1''), (1, Some ''Table1'')]
   \<and> tableWaiters (run [TableIdCall 0, Ready, Message (message_for ''Table1''), TableIdResume 0,
                   TableIdCall 1, TableIdResume 1, Message (message_for ''Table2'')]) = []"
proof -
  let ?evs = "[TableIdCall 0, Ready, Message (message_for ''Table1''), TableIdResume 0,
               TableIdCall 1, TableIdResume 1, Message (message_for ''Table2'')]"
  have before: "readyCalled (run [TableIdCall 0, Ready])" "tableId (run [TableIdCall 0, Ready]) = None"
    "truthy_str (msg_tableId (message_for ''Table1''))"
    by code_simp+
  from handshake_releases_once [OF refl, of "[TableIdCall 0, Ready]" "message_for ''Table1''"] before
  have first: "initCalls (step (run [TableIdCall 0, Ready]) (Message (message_for ''Table1''))) = 1"
    "tableId (step (run [TableIdCall 0, Ready]) (Message (message_for ''Table1''))) = Some ''Table1''"
    by simp_all
  have t: "tableId (run ?evs) = Some ''Table2''"
    by code_simp
  have r: "tableResults (run ?evs) = [(0, Some ''Table1''), (1, Some ''Table1'')]"
    by code_simp
  have q: "tableWaiters (run ?evs) = []"
    by code_simp
  from handshake_releases_once [OF refl, of ?evs] t
  have "initCalls (run ?evs) = 1"
    by simp
  with first t r q show ?thesis by simp
qed



text \<open>
  Claim C10 (no \<^verbatim>\<open>id\<close> column). When the fetched table has no \<^verbatim>\<open>id\<close> column, the
  handler returns early: the state is unchanged, so no callback is invoked, no call of
  \<^verbatim>\<open>getMappingsIfChanged\<close> is made and no request for the mappings is issued.
\<close>

theorem no_id_column_returns_early:
  assumes "map_of tbl ''id'' = None"
  shows "table_rows tbl = None \<and> step w (RecordsTable msg tbl) = w"
  using assms by (simp add: table_rows_def onRecords_table_def)

theorem no_id_column_example:
  "onRecords_accepts (message_for ''Table1'')
   \<and> step initial_world (RecordsTable (message_for ''Table1'') [(''Name'', [JStr ''A''])]) =
       initial_world"
proof -
  have "map_of [(''Name'', [JStr ''A''])] ''id'' = None"
    by simp
  from no_id_column_returns_early [OF this, of initial_world "message_for ''Table1''"]
  show ?thesis by (simp add: onRecords_accepts_def)
qed

end
